theory Spec2Isabelle
  imports Complex_Main "HOL-Library.Word" "HOL-Library.Signed_Division"
begin

section \<open>Route table (server/go/config.go)\<close>

text \<open>
  The Go struct \<^verbatim>\<open>Route\<close>. Go's \<^verbatim>\<open>int\<close> fields are identifiers and configured
  numbers that are only compared and converted, never added up, so they are plain
  integers here. Strings are byte strings, compared byte by byte.
\<close>

record Route =
  ID :: int
  Path :: string
  Target :: string
  Methods :: "string list"
  RateLimit :: int
  Timeout :: int
  AuthRequired :: bool
  Active :: bool

text \<open>\<^verbatim>\<open>strings.HasPrefix(s, prefix)\<close>: \<^verbatim>\<open>len(s) >= len(prefix) && s[:len(prefix)] == prefix\<close>.\<close>

definition HasPrefix :: "string \<Rightarrow> string \<Rightarrow> bool" where
  "HasPrefix s pre = (length pre \<le> length s \<and> take (length pre) s = pre)"

text \<open>\<^verbatim>\<open>pathMatches\<close>: exact match first, then the prefix match on \<^verbatim>\<open>routePath + "/"\<close>.\<close>

definition pathMatches :: "string \<Rightarrow> string \<Rightarrow> bool" where
  "pathMatches requestPath routePath =
     (if requestPath = routePath then True
      else if HasPrefix requestPath (routePath @ ''/'') then True
      else False)"

text \<open>
  The inner loop of \<^verbatim>\<open>FindRouteByPath\<close> over \<^verbatim>\<open>route.Methods\<close>: \<open>True\<close> when the
  loop reaches its \<^verbatim>\<open>return route, true\<close>, \<open>False\<close> when it runs off the end.
\<close>

fun methodAllowed :: "string list \<Rightarrow> string \<Rightarrow> bool" where
  "methodAllowed [] method = False"
| "methodAllowed (m # ms) method =
     (if m = ''*'' \<or> m = method then True else methodAllowed ms method)"

text \<open>
  \<^verbatim>\<open>FindRouteByPath\<close>: the outer loop over \<^verbatim>\<open>c.Routes\<close>. The Go result
  \<^verbatim>\<open>(route, true)\<close> is \<open>Some route\<close> and \<^verbatim>\<open>(Route{}, false)\<close> is \<open>None\<close>.
\<close>

fun FindRouteByPath :: "Route list \<Rightarrow> string \<Rightarrow> string \<Rightarrow> Route option" where
  "FindRouteByPath [] path method = None"
| "FindRouteByPath (route # rest) path method =
     (if \<not> Active route then FindRouteByPath rest path method
      else if pathMatches path (Path route) then
        (if methodAllowed (Methods route) method then Some route
         else FindRouteByPath rest path method)
      else FindRouteByPath rest path method)"

text \<open>
  The matching condition in the words of the specification of \<open>findMatch\<close>: the route is
  active, its path equals the request path or is a prefix of it followed by \<open>/\<close>, and
  its methods contain the request method or the wildcard.
\<close>

definition findMatch_condition :: "string \<Rightarrow> string \<Rightarrow> Route \<Rightarrow> bool" where
  "findMatch_condition path method r =
     (Active r \<and>
      (path = Path r \<or> (\<exists>rest. path = Path r @ ''/'' @ rest)) \<and>
      (method \<in> set (Methods r) \<or> ''*'' \<in> set (Methods r)))"

text \<open>The route of the specification's example: path \<open>/api/users\<close>, methods \<open>[GET]\<close>.\<close>

definition users_route :: Route where
  "users_route = \<lparr>ID = 1, Path = ''/api/users'', Target = ''http://user-service:8080'',
     Methods = [''GET''], RateLimit = 100, Timeout = 30, AuthRequired = True, Active = True\<rparr>"

section \<open>Gateway configuration (server/go/config.go)\<close>

text \<open>
  The fields of the Go struct \<^verbatim>\<open>Config\<close> that the rate limiter, the proxy and the
  catch-all handler read. The gateway holds one \<^verbatim>\<open>Config\<close> behind a pointer that the
  configuration endpoint overwrites in place, so every operation below takes the
  configuration that is current when it runs.
\<close>

record Config =
  EnableRateLimit :: bool
  DefaultRateLimit :: int
  DefaultTimeout :: int
  Routes :: "Route list"

section \<open>Token-bucket rate limiter (unnamed/part_001: RateLimiter, TokenBucket)\<close>

text \<open>
  The Go struct \<^verbatim>\<open>TokenBucket\<close>. The \<^verbatim>\<open>float64\<close> fields are real numbers here (exact
  arithmetic, no rounding), and a \<^verbatim>\<open>time.Time\<close> is a reading of the process's monotonic
  clock in seconds, so \<^verbatim>\<open>now.Sub(t).Seconds()\<close> is the difference of two readings.
\<close>

record TokenBucket =
  tokens :: real
  capacity :: real
  refillRate :: real
  lastRefillTime :: real

text \<open>
  \<^verbatim>\<open>TakeToken\<close>, with the reading \<open>now\<close> of \<^verbatim>\<open>time.Now()\<close> as a parameter. The
  result is the returned flag and the bucket as the call leaves it.
\<close>

definition TakeToken :: "TokenBucket \<Rightarrow> real \<Rightarrow> bool \<times> TokenBucket" where
  "TakeToken tb now =
     (let elapsed = now - lastRefillTime tb;
          tb1 = tb\<lparr>lastRefillTime := now\<rparr>;
          tb2 = tb1\<lparr>tokens := tokens tb1 + elapsed * refillRate tb1\<rparr>;
          tb3 = (if tokens tb2 > capacity tb2 then tb2\<lparr>tokens := capacity tb2\<rparr> else tb2)
      in if tokens tb3 < 1 then (False, tb3)
         else (True, tb3\<lparr>tokens := tokens tb3 - 1\<rparr>))"

text \<open>
  \<^verbatim>\<open>getBucket\<close> on the map \<^verbatim>\<open>rl.buckets\<close>. The buckets are reached only through this
  map, so the map holds the buckets themselves. \<open>tc\<close> is the clock reading taken when a
  bucket is created. The second lookup under the write lock repeats the first one in a
  sequential run.
\<close>

definition getBucket ::
  "(string \<rightharpoonup> TokenBucket) \<Rightarrow> string \<Rightarrow> int \<Rightarrow> real
     \<Rightarrow> TokenBucket \<times> (string \<rightharpoonup> TokenBucket)" where
  "getBucket buckets path rateLimit tc =
     (case buckets path of
        Some bucket \<Rightarrow> (bucket, buckets)
      | None \<Rightarrow>
          (let cap = real_of_int rateLimit;
               bucket = \<lparr>tokens = cap, capacity = cap, refillRate = cap / 60,
                          lastRefillTime = tc\<rparr>
           in (bucket, buckets(path \<mapsto> bucket))))"

text \<open>
  \<^verbatim>\<open>Allow\<close>: the flag it returns and the bucket map afterwards. \<open>tc\<close> is the clock
  reading of \<^verbatim>\<open>getBucket\<close> (used only when the bucket is created) and \<open>now\<close> the later
  reading of \<^verbatim>\<open>TakeToken\<close>.
\<close>

definition Allow ::
  "Config \<Rightarrow> (string \<rightharpoonup> TokenBucket) \<Rightarrow> string \<Rightarrow> int \<Rightarrow> real \<Rightarrow> real
     \<Rightarrow> bool \<times> (string \<rightharpoonup> TokenBucket)" where
  "Allow cfg buckets path rateLimit tc now =
     (if \<not> EnableRateLimit cfg then (True, buckets)
      else
        (let rateLimit1 = (if rateLimit \<le> 0 then DefaultRateLimit cfg else rateLimit);
             (bucket, buckets1) = getBucket buckets path rateLimit1 tc;
             (ok, bucket1) = TakeToken bucket now
         in (ok, buckets1(path \<mapsto> bucket1))))"

text \<open>
  A finite sequence of \<^verbatim>\<open>Allow\<close> calls: each call with the configuration current at
  that time, its path and configured limit, and its two clock readings.
\<close>

record AllowCall =
  call_cfg :: Config
  call_path :: string
  call_limit :: int
  call_tc :: real
  call_now :: real

fun allow_calls :: "(string \<rightharpoonup> TokenBucket) \<Rightarrow> AllowCall list \<Rightarrow> (string \<rightharpoonup> TokenBucket)" where
  "allow_calls buckets [] = buckets"
| "allow_calls buckets (c # cs) =
     allow_calls
       (snd (Allow (call_cfg c) buckets (call_path c) (call_limit c) (call_tc c) (call_now c)))
       cs"

text \<open>The readings of a monotonic clock never decrease, from the reading \<open>t\<close> on.\<close>

fun clock_monotone :: "real \<Rightarrow> AllowCall list \<Rightarrow> bool" where
  "clock_monotone t [] = True"
| "clock_monotone t (c # cs) =
     (t \<le> call_tc c \<and> call_tc c \<le> call_now c \<and> clock_monotone (call_now c) cs)"

text \<open>The limit a call creates its bucket with: the default when the configured one is not positive.\<close>

definition effective_limit :: "Config \<Rightarrow> int \<Rightarrow> int" where
  "effective_limit cfg rateLimit = (if rateLimit \<le> 0 then DefaultRateLimit cfg else rateLimit)"

fun limits_nonneg :: "AllowCall list \<Rightarrow> bool" where
  "limits_nonneg [] = True"
| "limits_nonneg (c # cs) =
     (0 \<le> effective_limit (call_cfg c) (call_limit c) \<and> limits_nonneg cs)"


text \<open>A configuration with rate limiting on and the default limit of \<^verbatim>\<open>LoadConfig\<close>.\<close>

definition default_config :: Config where
  "default_config =
     \<lparr>EnableRateLimit = True, DefaultRateLimit = 100, DefaultTimeout = 30, Routes = []\<rparr>"

text \<open>
  The invariant the bucket proofs carry: the tokens lie between zero and the capacity,
  the refill rate is not negative, and the last refill is not later than the clock
  reading \<open>t\<close>.
\<close>

definition bucket_ok :: "real \<Rightarrow> TokenBucket \<Rightarrow> bool" where
  "bucket_ok t b =
     (0 \<le> tokens b \<and> tokens b \<le> capacity b \<and> 0 \<le> refillRate b \<and> lastRefillTime b \<le> t)"

text \<open>A configuration whose default limit is negative, as a configuration document may hold.\<close>

definition negative_default_config :: Config where
  "negative_default_config =
     \<lparr>EnableRateLimit = True, DefaultRateLimit = - 5, DefaultTimeout = 30, Routes = []\<rparr>"

text \<open>Example calls on the path \<open>/api/orders\<close>.\<close>

definition orders_call :: "Config \<Rightarrow> int \<Rightarrow> real \<Rightarrow> AllowCall" where
  "orders_call cfg rateLimit t =
     \<lparr>call_cfg = cfg, call_path = ''/api/orders'', call_limit = rateLimit, call_tc = t, call_now = t\<rparr>"

section \<open>Statistics (server/go/proxy.go: Stats, RouteStat, updateStats, GetStats)\<close>

text \<open>
  The counters are \<^verbatim>\<open>int64\<close> in the source and only ever incremented by one per
  request, so they are unbounded integers here. The \<^verbatim>\<open>float64\<close> fields are real
  numbers (exact arithmetic).
\<close>

record RouteStat =
  Requests :: int
  Errors :: int
  AvgLatency :: real

text \<open>
  The Go map \<^verbatim>\<open>RouteStats\<close> is an association list with one entry per key. The loop of
  \<^verbatim>\<open>updateStats\<close> over the map visits the entries in an order Go leaves open; the sums
  it forms do not depend on the order in exact arithmetic.
\<close>

record Stats =
  TotalRequests :: int
  RequestsPerSecond :: real
  AvgResponseTime :: real
  ErrorRate :: real
  ActiveConnections :: int
  Uptime :: int
  RouteStats :: "(string \<times> RouteStat) list"

text \<open>The fields of \<^verbatim>\<open>Proxy\<close> that the request path reads and writes.\<close>

record Proxy =
  stats :: Stats
  startTime :: real
  activeRequests :: int

definition NewProxy :: "real \<Rightarrow> Proxy" where
  "NewProxy now =
     \<lparr>stats = \<lparr>TotalRequests = 0, RequestsPerSecond = 0, AvgResponseTime = 0, ErrorRate = 0,
                ActiveConnections = 0, Uptime = 0, RouteStats = []\<rparr>,
      startTime = now, activeRequests = 0\<rparr>"

text \<open>Storing under a key of a Go map: the entry is replaced, or added when the key is new.\<close>

fun mapStore :: "string \<Rightarrow> RouteStat \<Rightarrow> (string \<times> RouteStat) list \<Rightarrow> (string \<times> RouteStat) list" where
  "mapStore k v [] = [(k, v)]"
| "mapStore k v ((k', v') # kvs) =
     (if k' = k then (k, v) # kvs else (k', v') # mapStore k v kvs)"

text \<open>
  The loop at the end of \<^verbatim>\<open>updateStats\<close>: it accumulates \<^verbatim>\<open>AvgResponseTime\<close> and
  \<^verbatim>\<open>totalRequests\<close> over the entries.
\<close>

fun sumRouteStats :: "(string \<times> RouteStat) list \<Rightarrow> real \<Rightarrow> int \<Rightarrow> real \<times> int" where
  "sumRouteStats [] acc totalRequests = (acc, totalRequests)"
| "sumRouteStats ((k, rs) # rest) acc totalRequests =
     sumRouteStats rest (acc + AvgLatency rs * real_of_int (Requests rs))
       (totalRequests + Requests rs)"

text \<open>
  \<^verbatim>\<open>updateStats\<close>. \<open>latency\<close> is \<^verbatim>\<open>latency.Seconds()\<close> and \<open>now\<close> the clock reading
  of \<^verbatim>\<open>time.Since(p.startTime)\<close>. (Where the elapsed time is zero the \<^verbatim>\<open>float64\<close>
  quotient for \<^verbatim>\<open>RequestsPerSecond\<close> is infinite and the real one is 0; no statement
  below reads that field.)
\<close>

definition updateStats :: "Proxy \<Rightarrow> string \<Rightarrow> real \<Rightarrow> bool \<Rightarrow> real \<Rightarrow> Proxy" where
  "updateStats p path latency isError now =
     (let st = stats p;
          total = TotalRequests st + 1;
          elapsed = now - startTime p;
          rps = real_of_int total / elapsed;
          routeStat0 = (case map_of (RouteStats st) path of
                          Some rs \<Rightarrow> rs
                        | None \<Rightarrow> \<lparr>Requests = 0, Errors = 0, AvgLatency = 0\<rparr>);
          n = Requests routeStat0 + 1;
          routeStat1 = routeStat0\<lparr>Requests := n,
                         AvgLatency := (AvgLatency routeStat0 * real_of_int (n - 1) + latency)
                                         / real_of_int n\<rparr>;
          routeStat2 = (if isError then routeStat1\<lparr>Errors := Errors routeStat1 + 1\<rparr>
                        else routeStat1);
          errorRate = (if isError
                       then real_of_int (Errors routeStat2) / real_of_int (Requests routeStat2)
                       else ErrorRate st);
          routeStats = mapStore path routeStat2 (RouteStats st);
          (acc, totalRequests) = sumRouteStats routeStats 0 0;
          avgResponseTime = (if totalRequests > 0 then acc / real_of_int totalRequests else acc)
      in p\<lparr>stats := st\<lparr>TotalRequests := total, RequestsPerSecond := rps,
                        AvgResponseTime := avgResponseTime, ErrorRate := errorRate,
                        RouteStats := routeStats\<rparr>\<rparr>)"

text \<open>\<^verbatim>\<open>GetStats\<close>: the snapshot. The conversion \<^verbatim>\<open>int64(seconds)\<close> truncates towards zero.\<close>

definition GetStats :: "Proxy \<Rightarrow> real \<Rightarrow> Stats" where
  "GetStats p now =
     (let seconds = now - startTime p
      in (stats p)\<lparr>ActiveConnections := activeRequests p,
                   Uptime := (if 0 \<le> seconds then \<lfloor>seconds\<rfloor> else \<lceil>seconds\<rceil>)\<rparr>)"

text \<open>A finite sequence of \<^verbatim>\<open>updateStats\<close> calls.\<close>

record StatCall =
  rec_path :: string
  rec_latency :: real
  rec_isError :: bool
  rec_now :: real

fun record_calls :: "Proxy \<Rightarrow> StatCall list \<Rightarrow> Proxy" where
  "record_calls p [] = p"
| "record_calls p (c # cs) =
     record_calls (updateStats p (rec_path c) (rec_latency c) (rec_isError c) (rec_now c)) cs"

text \<open>The latencies recorded for one route, in the order of the calls.\<close>

definition latencies_of :: "string \<Rightarrow> StatCall list \<Rightarrow> real list" where
  "latencies_of path calls = map rec_latency (filter (\<lambda>c. rec_path c = path) calls)"

text \<open>The batch definition of the specification: the arithmetic mean of a list.\<close>

definition arithmetic_mean :: "real list \<Rightarrow> real" where
  "arithmetic_mean ls = sum_list ls / real (length ls)"

text \<open>
  The global error ratio in the words of the specification: the errors of all routes
  over the requests of all routes.
\<close>

definition total_errors :: "Stats \<Rightarrow> int" where
  "total_errors st = sum_list (map (\<lambda>(k, rs). Errors rs) (RouteStats st))"

definition total_requests :: "Stats \<Rightarrow> int" where
  "total_requests st = sum_list (map (\<lambda>(k, rs). Requests rs) (RouteStats st))"

definition global_error_ratio :: "Stats \<Rightarrow> real" where
  "global_error_ratio st = real_of_int (total_errors st) / real_of_int (total_requests st)"

text \<open>
  The entry \<^verbatim>\<open>updateStats\<close> starts from for a path (the stored one, or the zero
  \<^verbatim>\<open>RouteStat{}\<close>), and the latency total a running average stands for.
\<close>

definition routeStatOf :: "Proxy \<Rightarrow> string \<Rightarrow> RouteStat" where
  "routeStatOf p path =
     (case map_of (RouteStats (stats p)) path of
        Some rs \<Rightarrow> rs
      | None \<Rightarrow> \<lparr>Requests = 0, Errors = 0, AvgLatency = 0\<rparr>)"

definition latency_total :: "RouteStat \<Rightarrow> real" where
  "latency_total rs = AvgLatency rs * real_of_int (Requests rs)"

text \<open>Example calls: three requests to \<open>/api/users\<close> and one to \<open>/public\<close> in between.\<close>

definition users_calls :: "StatCall list" where
  "users_calls =
     [\<lparr>rec_path = ''/api/users'', rec_latency = 1, rec_isError = False, rec_now = 1\<rparr>,
      \<lparr>rec_path = ''/public'', rec_latency = 40, rec_isError = False, rec_now = 2\<rparr>,
      \<lparr>rec_path = ''/api/users'', rec_latency = 2, rec_isError = True, rec_now = 3\<rparr>,
      \<lparr>rec_path = ''/api/users'', rec_latency = 6, rec_isError = False, rec_now = 4\<rparr>]"

text \<open>A failed request followed by a successful one on the same route.\<close>

definition error_then_success :: "StatCall list" where
  "error_then_success =
     [\<lparr>rec_path = ''/api/users'', rec_latency = 1, rec_isError = True, rec_now = 1\<rparr>,
      \<lparr>rec_path = ''/api/users'', rec_latency = 1, rec_isError = False, rec_now = 2\<rparr>]"

section \<open>Forwarding (server/go/proxy.go: ProxyRequest)\<close>

text \<open>
  What the round trip to the backend inside \<^verbatim>\<open>httputil.ReverseProxy.ServeHTTP\<close> yields:
  a response with its status code, or a transport error with its message. On a transport
  error the reverse proxy calls the \<^verbatim>\<open>ErrorHandler\<close> once and returns.
\<close>

datatype RoundTrip = Responded nat | TransportError string

record ProxyResult =
  returned_error :: "string option"
  written_status :: "nat option"

text \<open>The response-header timeout handed to the transport, if any.\<close>

definition proxyTimeout :: "Config \<Rightarrow> Route \<Rightarrow> int option" where
  "proxyTimeout cfg route =
     (let timeout = Timeout route;
          timeout1 = (if timeout \<le> 0 then DefaultTimeout cfg else timeout)
      in if timeout1 > 0 then Some timeout1 else None)"

text \<open>
  The closure \<^verbatim>\<open>proxy.ErrorHandler\<close>. \<open>clk k\<close> is the \<open>k\<close>-th reading of the clock made
  during the request, \<open>clk 0\<close> being \<^verbatim>\<open>startTime\<close>; the handler makes the readings \<open>i\<close>
  (for the latency) and \<open>i + 1\<close> (inside \<^verbatim>\<open>updateStats\<close>).
\<close>

definition ErrorHandler :: "Proxy \<Rightarrow> Route \<Rightarrow> (nat \<Rightarrow> real) \<Rightarrow> nat \<Rightarrow> string \<Rightarrow> nat \<times> Proxy" where
  "ErrorHandler p route clk i err =
     (let p1 = updateStats p (Path route) (clk i - clk 0) True (clk (i + 1))
      in if err = ''net/http: timeout awaiting response headers'' then (504, p1)
         else (503, p1))"

text \<open>
  \<^verbatim>\<open>proxy.ServeHTTP(w, r)\<close>: the status written to the client, the proxy afterwards and the
  index of the next clock reading.
\<close>

definition ServeHTTP :: "Proxy \<Rightarrow> Route \<Rightarrow> (nat \<Rightarrow> real) \<Rightarrow> RoundTrip \<Rightarrow> nat \<times> Proxy \<times> nat" where
  "ServeHTTP p route clk outcome =
     (case outcome of
        Responded code \<Rightarrow> (code, p, 1)
      | TransportError err \<Rightarrow>
          (let (code, p1) = ErrorHandler p route clk 1 err in (code, p1, 3)))"

text \<open>
  \<^verbatim>\<open>ProxyRequest\<close>. \<open>url_Parse\<close> is \<^verbatim>\<open>url.Parse\<close> reduced to its error (\<open>None\<close> when the
  target parses); \<open>upstream\<close> is the backend: the round trip's outcome under the given
  timeout. The deferred decrement runs on both returns.
\<close>

definition ProxyRequest ::
  "Proxy \<Rightarrow> Config \<Rightarrow> Route \<Rightarrow> (string \<Rightarrow> string option) \<Rightarrow> (int option \<Rightarrow> RoundTrip)
     \<Rightarrow> (nat \<Rightarrow> real) \<Rightarrow> ProxyResult \<times> Proxy" where
  "ProxyRequest p cfg route url_Parse upstream clk =
     (let p1 = p\<lparr>activeRequests := activeRequests p + 1\<rparr>
      in case url_Parse (Target route) of
           Some err \<Rightarrow>
             (\<lparr>returned_error = Some (''invalid target URL: '' @ err), written_status = None\<rparr>,
              p1\<lparr>activeRequests := activeRequests p1 - 1\<rparr>)
         | None \<Rightarrow>
             (let (code, p2, k) = ServeHTTP p1 route clk (upstream (proxyTimeout cfg route));
                  p3 = updateStats p2 (Path route) (clk k - clk 0) False (clk (k + 1))
              in (\<lparr>returned_error = None, written_status = Some code\<rparr>,
                  p3\<lparr>activeRequests := activeRequests p3 - 1\<rparr>)))"

text \<open>
  The route of the specification's scenario; backends that time out, refuse the
  connection, and answer; and a target that parses.
\<close>

definition orders_route :: Route where
  "orders_route = \<lparr>ID = 1, Path = ''/api/orders'', Target = ''http://order-svc:8082'',
     Methods = [''GET'', ''POST''], RateLimit = 50, Timeout = 5000, AuthRequired = True,
     Active = True\<rparr>"

definition timing_out :: "int option \<Rightarrow> RoundTrip" where
  "timing_out t = TransportError ''net/http: timeout awaiting response headers''"

definition refusing :: "int option \<Rightarrow> RoundTrip" where
  "refusing t = TransportError ''dial tcp: connection refused''"

definition responding :: "int option \<Rightarrow> RoundTrip" where
  "responding t = Responded 200"

definition parses :: "string \<Rightarrow> string option" where
  "parses target = None"

text \<open>A clock that advances by one second per reading.\<close>

definition ticking :: "nat \<Rightarrow> real" where
  "ticking k = 10 + real k"

section \<open>Credential store (server/go/config.go: Credential, Auth, Authenticate)\<close>

text \<open>
  The Go struct \<^verbatim>\<open>Credential\<close>; its field \<^verbatim>\<open>ID\<close> is \<open>ID_cred\<close> here, the name \<open>ID\<close>
  being the route's. Times are clock readings.
\<close>

record Credential =
  ID_cred :: int
  RouteID :: int
  Name :: string
  APIKey :: string
  APISecret :: string
  Created :: real
  LastUsed :: real
  Enabled :: bool

record Auth =
  credentials :: "string \<rightharpoonup> Credential"
  routeAuth :: "int \<rightharpoonup> string list"

definition NewAuth :: Auth where
  "NewAuth = \<lparr>credentials = Map.empty, routeAuth = Map.empty\<rparr>"

text \<open>
  The functions of Go's standard library that \<^verbatim>\<open>Authenticate\<close> calls and that are not
  modelled further: \<^verbatim>\<open>strings.ToLower\<close>, \<^verbatim>\<open>base64.StdEncoding.DecodeString\<close> (\<open>None\<close>
  for its error) and \<^verbatim>\<open>sha256.Sum256\<close>. Every statement below holds for all of them.
\<close>

record Library =
  strings_ToLower :: "string \<Rightarrow> string"
  base64_DecodeString :: "string \<Rightarrow> string option"
  sha256_Sum256 :: "string \<Rightarrow> string"

text \<open>\<^verbatim>\<open>strings.Split(s, sep)\<close> for a separator of one byte.\<close>

fun Split :: "string \<Rightarrow> char \<Rightarrow> string list" where
  "Split [] sep = [[]]"
| "Split (x # xs) sep =
     (if x = sep then [] # Split xs sep
      else (case Split xs sep of
              part # parts \<Rightarrow> (x # part) # parts
            | [] \<Rightarrow> [[x]]))"

text \<open>
  \<^verbatim>\<open>strings.SplitN(s, sep, 2)\<close> for a separator of one byte: the text before the first
  separator and all that follows it, or the whole text when there is no separator.
\<close>

definition SplitN2 :: "string \<Rightarrow> char \<Rightarrow> string list" where
  "SplitN2 s sep =
     (if sep \<in> set s
      then [takeWhile (\<lambda>c. c \<noteq> sep) s, tl (dropWhile (\<lambda>c. c \<noteq> sep) s)]
      else [s])"

text \<open>\<^verbatim>\<open>fmt.Sprintf("%x", hash)\<close> on a byte array: two lower-case hex digits per byte.\<close>

definition hexdigit :: "nat \<Rightarrow> char" where
  "hexdigit n = ''0123456789abcdef'' ! (n mod 16)"

definition hex_byte :: "char \<Rightarrow> string" where
  "hex_byte c = [hexdigit ((of_char c :: nat) div 16), hexdigit ((of_char c :: nat) mod 16)]"

definition hashSecret :: "Library \<Rightarrow> string \<Rightarrow> string" where
  "hashSecret lib secret = concat (map hex_byte (sha256_Sum256 lib secret))"

text \<open>\<^verbatim>\<open>a.routeAuth[routeID]\<close>: the keys listed for a route, none when the route has no entry.\<close>

definition routeKeys :: "Auth \<Rightarrow> int \<Rightarrow> string list" where
  "routeKeys a routeID = (case routeAuth a routeID of Some keys \<Rightarrow> keys | None \<Rightarrow> [])"

text \<open>The loop of \<^verbatim>\<open>Authenticate\<close> that sets \<^verbatim>\<open>validForRoute\<close>.\<close>

fun validForRoute :: "string list \<Rightarrow> string \<Rightarrow> bool" where
  "validForRoute [] apiKey = False"
| "validForRoute (key # keys) apiKey = (if key = apiKey then True else validForRoute keys apiKey)"

text \<open>
  \<^verbatim>\<open>Authenticate\<close>. \<open>authHeader\<close> is \<^verbatim>\<open>r.Header.Get("Authorization")\<close>, empty when the
  header is absent; \<open>now\<close> is the clock reading stored in \<^verbatim>\<open>LastUsed\<close>. The result is
  the returned flag and the store afterwards.
\<close>

definition Authenticate :: "Library \<Rightarrow> Auth \<Rightarrow> string \<Rightarrow> int \<Rightarrow> real \<Rightarrow> bool \<times> Auth" where
  "Authenticate lib a authHeader routeID now =
     (if authHeader = [] then (False, a)
      else
        (case Split authHeader (CHR '' '') of
           [scheme, payload] \<Rightarrow>
             (if strings_ToLower lib scheme \<noteq> ''basic'' then (False, a)
              else
                (case base64_DecodeString lib payload of
                   None \<Rightarrow> (False, a)
                 | Some decoded \<Rightarrow>
                     (case SplitN2 decoded (CHR '':'') of
                        [apiKey, apiSecret] \<Rightarrow>
                          (case credentials a apiKey of
                             None \<Rightarrow> (False, a)
                           | Some cred \<Rightarrow>
                               (if \<not> Enabled cred then (False, a)
                                else if \<not> validForRoute (routeKeys a routeID) apiKey
                                then (False, a)
                                else if hashSecret lib apiSecret \<noteq> APISecret cred
                                then (False, a)
                                else (True,
                                      a\<lparr>credentials :=
                                          (credentials a)(apiKey \<mapsto> cred\<lparr>LastUsed := now\<rparr>)\<rparr>)))
                      | _ \<Rightarrow> (False, a))))
         | _ \<Rightarrow> (False, a)))"

text \<open>
  The parsing steps of \<^verbatim>\<open>Authenticate\<close> on their own: the key and secret a header
  carries, if it has the form the function accepts.
\<close>

definition parseBasic :: "Library \<Rightarrow> string \<Rightarrow> (string \<times> string) option" where
  "parseBasic lib authHeader =
     (case Split authHeader (CHR '' '') of
        [scheme, payload] \<Rightarrow>
          (if strings_ToLower lib scheme \<noteq> ''basic'' then None
           else
             (case base64_DecodeString lib payload of
                None \<Rightarrow> None
              | Some decoded \<Rightarrow>
                  (case SplitN2 decoded (CHR '':'') of
                     [apiKey, apiSecret] \<Rightarrow> Some (apiKey, apiSecret)
                   | _ \<Rightarrow> None)))
      | _ \<Rightarrow> None)"

text \<open>
  The protocol in the words of the specification. A header presents a key and a secret
  when it is \<open>Basic <base64>\<close> (scheme, one space, payload; the scheme compared in lower
  case) and the payload decodes to \<open>key:secret\<close>, the key ending at the first colon.
\<close>

definition presents :: "Library \<Rightarrow> string \<Rightarrow> string \<Rightarrow> string \<Rightarrow> bool" where
  "presents lib header key secret =
     (\<exists>scheme payload.
        header = scheme @ '' '' @ payload \<and>
        CHR '' '' \<notin> set scheme \<and> CHR '' '' \<notin> set payload \<and>
        strings_ToLower lib scheme = ''basic'' \<and>
        base64_DecodeString lib payload = Some (key @ '':'' @ secret) \<and>
        CHR '':'' \<notin> set key)"

definition authenticate_spec :: "Library \<Rightarrow> Auth \<Rightarrow> string \<Rightarrow> int \<Rightarrow> bool" where
  "authenticate_spec lib a header routeId =
     (\<exists>key secret cred.
        presents lib header key secret \<and>
        credentials a key = Some cred \<and>
        Enabled cred \<and>
        key \<in> set (routeKeys a routeId) \<and>
        hashSecret lib secret = APISecret cred)"

text \<open>
  For the examples: the values of the three library functions on the inputs the
  examples use (\<open>YWxpY2U6czNjcmV0\<close> is the base64 of \<open>alice:s3cret\<close>, and the 32 bytes
  are the SHA-256 of \<open>s3cret\<close>).
\<close>

definition example_library :: Library where
  "example_library =
     \<lparr>strings_ToLower = (\<lambda>s. if s = ''Basic'' \<or> s = ''BASIC'' then ''basic'' else s),
      base64_DecodeString =
        (\<lambda>s. if s = ''YWxpY2U6czNjcmV0'' then Some ''alice:s3cret'' else None),
      sha256_Sum256 = (\<lambda>s.
       [CHR 0x1E, CHR 0xC1, CHR 0xC2, CHR 0x6B, CHR 0x50, CHR 0xD5, CHR 0xD3, CHR 0xC5,
        CHR 0x8D, CHR 0x95, CHR 0x83, CHR 0x18, CHR 0x1A, CHR 0xF8, CHR 0x07, CHR 0x66,
        CHR 0x55, CHR 0xFE, CHR 0x00, CHR 0x75, CHR 0x6B, CHR 0xF7, CHR 0x28, CHR 0x59,
        CHR 0x40, CHR 0xBA, CHR 0x36, CHR 0x70, CHR 0xF9, CHR 0x9F, CHR 0xCB, CHR 0xA0])\<rparr>"

definition alice :: Credential where
  "alice = \<lparr>ID_cred = 1, RouteID = 1, Name = ''alice'', APIKey = ''alice'',
     APISecret = ''1ec1c26b50d5d3c58d9583181af8076655fe00756bf7285940ba3670f99fcba0'',
     Created = 0, LastUsed = 0, Enabled = True\<rparr>"

definition alice_store :: Auth where
  "alice_store = \<lparr>credentials = [''alice'' \<mapsto> alice], routeAuth = [1 \<mapsto> [''alice'']]\<rparr>"

section \<open>Catch-all proxy endpoint (server/go/cmd/gateway/main.go: handleProxyRequest)\<close>

text \<open>
  What the handler does with a request: one of its three refusals (404, 429, 401), or
  the call of \<^verbatim>\<open>proxyRequest\<close> with its result and the status the handler writes when
  that call returns an error.
\<close>

datatype Handled =
  NotFound
  | RateLimitExceeded
  | AuthenticationRequired
  | Forwarded ProxyResult "nat option"

text \<open>
  \<^verbatim>\<open>handleProxyRequest\<close> on the gateway's configuration, bucket map and proxy. The
  functions of \<^verbatim>\<open>cmd/gateway/main.go\<close> it calls (\<^verbatim>\<open>findRouteByPath\<close>, \<^verbatim>\<open>allow\<close>,
  \<^verbatim>\<open>proxyRequest\<close>) repeat those modelled above line by line.
\<close>

definition handleProxyRequest ::
  "Config \<Rightarrow> (string \<rightharpoonup> TokenBucket) \<Rightarrow> Proxy \<Rightarrow> string \<Rightarrow> string \<Rightarrow> string
     \<Rightarrow> (string \<Rightarrow> string option) \<Rightarrow> (int option \<Rightarrow> RoundTrip) \<Rightarrow> real \<Rightarrow> real
     \<Rightarrow> (nat \<Rightarrow> real) \<Rightarrow> Handled \<times> (string \<rightharpoonup> TokenBucket) \<times> Proxy" where
  "handleProxyRequest cfg buckets p path method authHeader url_Parse upstream tc now clk =
     (case FindRouteByPath (Routes cfg) path method of
        None \<Rightarrow> (NotFound, buckets, p)
      | Some route \<Rightarrow>
          (let (allowed, buckets1) =
                 (if EnableRateLimit cfg
                  then Allow cfg buckets (Path route) (RateLimit route) tc now
                  else (True, buckets))
           in if \<not> allowed then (RateLimitExceeded, buckets1, p)
              else if AuthRequired route \<and> authHeader = [] then
                (AuthenticationRequired, buckets1, p)
              else
                (let (res, p1) = ProxyRequest p cfg route url_Parse upstream clk;
                     status =
                       (case returned_error res of
                          None \<Rightarrow> None
                        | Some e \<Rightarrow>
                            Some (if e = ''gateway timeout'' then 504
                                  else if e = ''service unavailable'' then 503
                                  else (500::nat)))
                 in (Forwarded res status, buckets1, p1))))"

text \<open>A gateway whose only route is the specification's \<open>/api/orders\<close>, which requires authentication.\<close>

definition orders_config :: Config where
  "orders_config =
     \<lparr>EnableRateLimit = True, DefaultRateLimit = 100, DefaultTimeout = 30,
      Routes = [orders_route]\<rparr>"

section \<open>Traffic analytics (server/go/traffic.go: aggregateHourlyData)\<close>










section \<open>Route matching: proofs\<close>

lemma HasPrefix_append_iff: "HasPrefix s pre = (\<exists>rest. s = pre @ rest)"
proof
  assume "HasPrefix s pre"
  then have "s = pre @ drop (length pre) s"
    by (metis HasPrefix_def append_take_drop_id)
  then show "\<exists>rest. s = pre @ rest" ..
next
  assume "\<exists>rest. s = pre @ rest"
  then show "HasPrefix s pre"
    by (auto simp: HasPrefix_def)
qed

lemma pathMatches_iff:
  "pathMatches requestPath routePath =
     (requestPath = routePath \<or> (\<exists>rest. requestPath = routePath @ ''/'' @ rest))"
  by (simp add: pathMatches_def HasPrefix_append_iff)

lemma methodAllowed_iff:
  "methodAllowed ms method = (method \<in> set ms \<or> ''*'' \<in> set ms)"
  by (induction ms) auto

lemma FindRouteByPath_find:
  "FindRouteByPath routes path method = find (findMatch_condition path method) routes"
  by (induction routes)
     (simp_all add: findMatch_condition_def pathMatches_iff methodAllowed_iff)

text \<open>
  C6. For every route list, request path and method, \<open>FindRouteByPath\<close> returns the
  first route in list (registration) order that satisfies the matching condition, and
  reports not-found exactly when no route satisfies it. On the route \<open>/api/users\<close> with
  methods \<open>[GET]\<close>, \<open>GET /api/users/42\<close> matches and \<open>DELETE /api/users\<close> does not.
\<close>

theorem FindRouteByPath_first_match:
  "FindRouteByPath routes path method = find (findMatch_condition path method) routes
   \<and> (FindRouteByPath routes path method = None)
       = (\<not> (\<exists>r \<in> set routes. findMatch_condition path method r))
   \<and> FindRouteByPath [users_route] ''/api/users/42'' ''GET'' = Some users_route
   \<and> FindRouteByPath [users_route] ''/api/users'' ''DELETE'' = None"
proof -
  have a: "FindRouteByPath routes path method = find (findMatch_condition path method) routes"
    by (rule FindRouteByPath_find)
  have b: "(FindRouteByPath routes path method = None)
       = (\<not> (\<exists>r \<in> set routes. findMatch_condition path method r))"
    by (auto simp: FindRouteByPath_find find_None_iff)
  have c: "FindRouteByPath [users_route] ''/api/users/42'' ''GET'' = Some users_route"
    by (simp add: users_route_def pathMatches_def HasPrefix_def)
  have d: "FindRouteByPath [users_route] ''/api/users'' ''DELETE'' = None"
    by (simp add: users_route_def pathMatches_def HasPrefix_def)
  from a b c d show ?thesis by blast
qed

section \<open>Token bucket: proofs\<close>



lemma Allow_disabled:
  "\<not> EnableRateLimit cfg \<Longrightarrow> Allow cfg buckets path rateLimit tc now = (True, buckets)"
  by (simp add: Allow_def)





lemma TakeToken_frame:
  "capacity (snd (TakeToken tb now)) = capacity tb \<and>
   refillRate (snd (TakeToken tb now)) = refillRate tb \<and>
   lastRefillTime (snd (TakeToken tb now)) = now"
  by (simp add: TakeToken_def Let_def)

lemma TakeToken_bounds:
  assumes "0 \<le> tokens tb" "tokens tb \<le> capacity tb" "0 \<le> refillRate tb"
    "lastRefillTime tb \<le> now"
  shows "0 \<le> tokens (snd (TakeToken tb now)) \<and> tokens (snd (TakeToken tb now)) \<le> capacity tb"
proof -
  have "0 \<le> (now - lastRefillTime tb) * refillRate tb"
    using assms by simp
  then show ?thesis
    using assms by (auto simp: TakeToken_def Let_def)
qed

lemma TakeToken_ok:
  assumes "bucket_ok t b" "t \<le> now"
  shows "bucket_ok now (snd (TakeToken b now))"
  using TakeToken_bounds[of b now] TakeToken_frame[of b now] assms
  by (simp add: bucket_ok_def)

lemma bucket_ok_mono: "bucket_ok t b \<Longrightarrow> t \<le> t' \<Longrightarrow> bucket_ok t' b"
  by (simp add: bucket_ok_def)

lemma Allow_other_path:
  "q \<noteq> path \<Longrightarrow> snd (Allow cfg buckets path rateLimit tc now) q = buckets q"
  by (simp add: Allow_def getBucket_def Let_def split: option.splits prod.splits)

lemma Allow_same_path_enabled:
  "EnableRateLimit cfg \<Longrightarrow>
   snd (Allow cfg buckets path rateLimit tc now) path =
     Some (snd (TakeToken (fst (getBucket buckets path (effective_limit cfg rateLimit) tc)) now))"
  by (simp add: Allow_def getBucket_def effective_limit_def Let_def
           split: option.splits prod.splits)

lemma getBucket_ok:
  assumes "\<forall>p b. buckets p = Some b \<longrightarrow> bucket_ok t b" "t \<le> tc" "0 \<le> rateLimit"
  shows "bucket_ok tc (fst (getBucket buckets path rateLimit tc))"
proof (cases "buckets path")
  case None
  then show ?thesis using assms by (simp add: getBucket_def Let_def bucket_ok_def)
next
  case (Some b)
  then have "bucket_ok t b" using assms by blast
  then show ?thesis using Some assms(2) by (simp add: getBucket_def bucket_ok_def)
qed

lemma Allow_ok:
  assumes inv: "\<forall>p b. buckets p = Some b \<longrightarrow> bucket_ok t b"
    and clk: "t \<le> tc" "tc \<le> now"
    and lim: "0 \<le> effective_limit cfg rateLimit"
  shows "\<forall>p b. snd (Allow cfg buckets path rateLimit tc now) p = Some b \<longrightarrow> bucket_ok now b"
proof (intro allI impI)
  fix p b
  assume h: "snd (Allow cfg buckets path rateLimit tc now) p = Some b"
  show "bucket_ok now b"
  proof (cases "EnableRateLimit cfg")
    case False
    then have "buckets p = Some b" using h by (simp add: Allow_def)
    then show ?thesis using inv clk bucket_ok_mono by (meson order_trans)
  next
    case True
    show ?thesis
    proof (cases "p = path")
      case False
      then have "buckets p = Some b" using h by (simp add: Allow_other_path)
      then show ?thesis using inv clk bucket_ok_mono by (meson order_trans)
    next
      case eq: True
      have "b = snd (TakeToken (fst (getBucket buckets path (effective_limit cfg rateLimit) tc)) now)"
        using h True eq by (simp add: Allow_same_path_enabled)
      then show ?thesis
        using TakeToken_ok[OF getBucket_ok[OF inv clk(1) lim] clk(2)] by simp
    qed
  qed
qed

lemma allow_calls_ok:
  "\<forall>p b. buckets p = Some b \<longrightarrow> bucket_ok t b \<Longrightarrow> clock_monotone t calls \<Longrightarrow>
   limits_nonneg calls \<Longrightarrow> allow_calls buckets calls p = Some b \<Longrightarrow>
   0 \<le> tokens b \<and> tokens b \<le> capacity b"
proof (induction calls arbitrary: buckets t)
  case Nil
  then show ?case by (simp add: bucket_ok_def)
next
  case (Cons c cs)
  have "\<forall>p b. snd (Allow (call_cfg c) buckets (call_path c) (call_limit c) (call_tc c)
                  (call_now c)) p = Some b
          \<longrightarrow> bucket_ok (call_now c) b"
    using Cons.prems by (intro Allow_ok[where t = t]) simp_all
  then show ?case
    using Cons.IH[of _ "call_now c"] Cons.prems by simp
qed

lemma clock_monotone_take: "clock_monotone t calls \<Longrightarrow> clock_monotone t (take n calls)"
  by (induction calls arbitrary: t n) (auto simp: take_Cons split: nat.splits)

lemma limits_nonneg_take: "limits_nonneg calls \<Longrightarrow> limits_nonneg (take n calls)"
  by (induction calls arbitrary: n) (auto simp: take_Cons split: nat.splits)

text \<open>
  C5, as stated, fails: a call whose configured limit is not positive takes the default
  limit, and with a negative default the bucket is created with negative capacity and
  tokens, and stays negative.
\<close>

theorem tokens_negative_counterexample:
  "allow_calls Map.empty [orders_call negative_default_config 0 0] ''/api/orders''
     = Some \<lparr>tokens = - 5, capacity = - 5, refillRate = - (1 / 12), lastRefillTime = 0\<rparr>
   \<and> \<not> (0 \<le> tokens \<lparr>tokens = - 5, capacity = - 5, refillRate = - (1 / 12), lastRefillTime = 0\<rparr>)"
  by (simp add: orders_call_def negative_default_config_def Allow_def getBucket_def
        TakeToken_def Let_def)

text \<open>
  C5, amended. Starting from a rate limiter without buckets, for every finite sequence
  of \<open>Allow\<close> calls read off a monotonic clock whose effective limits (the configured
  limit, or the default when that is not positive) are not negative, after each call
  (after every prefix of the sequence) every bucket holds at least zero and at most
  capacity tokens.
\<close>

theorem tokens_within_capacity:
  assumes "clock_monotone t0 calls" and "limits_nonneg calls"
    and "allow_calls Map.empty (take n calls) path = Some b"
  shows "0 \<le> tokens b \<and> tokens b \<le> capacity b"
proof -
  have "\<forall>p b. (Map.empty :: string \<rightharpoonup> TokenBucket) p = Some b \<longrightarrow> bucket_ok t0 b"
    by simp
  then show ?thesis
    using allow_calls_ok[of Map.empty t0 "take n calls" path b]
      clock_monotone_take[OF assms(1)] limits_nonneg_take[OF assms(2)] assms(3)
    by blast
qed

theorem tokens_within_capacity_witness:
  "clock_monotone 0 [orders_call default_config 2 0, orders_call default_config 2 30]
   \<and> limits_nonneg [orders_call default_config 2 0, orders_call default_config 2 30]
   \<and> allow_calls Map.empty
        (take 2 [orders_call default_config 2 0, orders_call default_config 2 30]) ''/api/orders''
       = Some \<lparr>tokens = 1, capacity = 2, refillRate = 1 / 30, lastRefillTime = 30\<rparr>
   \<and> 0 \<le> tokens \<lparr>tokens = 1, capacity = 2, refillRate = 1 / 30, lastRefillTime = 30\<rparr>
   \<and> tokens \<lparr>tokens = 1, capacity = 2, refillRate = 1 / 30, lastRefillTime = 30\<rparr>
       \<le> capacity \<lparr>tokens = 1, capacity = 2, refillRate = 1 / 30, lastRefillTime = (30::real)\<rparr>"
proof -
  have c: "clock_monotone 0 [orders_call default_config 2 0, orders_call default_config 2 30]"
    by (simp add: orders_call_def)
  have l: "limits_nonneg [orders_call default_config 2 0, orders_call default_config 2 30]"
    by (simp add: orders_call_def default_config_def effective_limit_def)
  have r: "allow_calls Map.empty
        (take 2 [orders_call default_config 2 0, orders_call default_config 2 30]) ''/api/orders''
       = Some \<lparr>tokens = 1, capacity = 2, refillRate = 1 / 30, lastRefillTime = 30\<rparr>"
    by (simp add: orders_call_def default_config_def Allow_def getBucket_def
        TakeToken_def Let_def)
  from tokens_within_capacity[OF c l r] c l r show ?thesis by blast
qed

lemma Allow_capacity_frame:
  "buckets path = Some b \<Longrightarrow>
   \<exists>b'. snd (Allow cfg buckets path rateLimit tc now) path = Some b' \<and>
        b' = b\<lparr>tokens := tokens b', lastRefillTime := lastRefillTime b'\<rparr>"
  by (auto simp: Allow_def getBucket_def TakeToken_def Let_def split: prod.splits)

lemma allow_calls_frame:
  "buckets path = Some b \<Longrightarrow>
   \<exists>b'. allow_calls buckets calls path = Some b' \<and> capacity b' = capacity b \<and>
        refillRate b' = refillRate b"
proof (induction calls arbitrary: buckets b)
  case Nil
  then show ?case by simp
next
  case (Cons c cs)
  show ?case
  proof (cases "call_path c = path")
    case True
    obtain b1 where b1: "snd (Allow (call_cfg c) buckets path (call_limit c) (call_tc c)
          (call_now c)) path = Some b1"
      and fr: "b1 = b\<lparr>tokens := tokens b1, lastRefillTime := lastRefillTime b1\<rparr>"
      using Allow_capacity_frame[of buckets path b "call_cfg c" "call_limit c" "call_tc c"
          "call_now c"] Cons.prems
      by blast
    have "capacity b1 = capacity b" "refillRate b1 = refillRate b"
      by (subst fr, simp)+
    moreover obtain b' where
      "allow_calls (snd (Allow (call_cfg c) buckets path (call_limit c) (call_tc c)
          (call_now c))) cs path = Some b'"
      "capacity b' = capacity b1" "refillRate b' = refillRate b1"
      using Cons.IH[of _ b1] b1 by blast
    ultimately show ?thesis using True by simp
  next
    case False
    then have "snd (Allow (call_cfg c) buckets (call_path c) (call_limit c) (call_tc c)
        (call_now c)) path = Some b"
      using Cons.prems by (simp add: Allow_other_path)
    then show ?thesis using Cons.IH[of _ b] by simp
  qed
qed

lemma Allow_creates:
  assumes "EnableRateLimit cfg" and "buckets path = None"
  shows "\<exists>b. snd (Allow cfg buckets path rateLimit tc now) path = Some b \<and>
           capacity b = real_of_int (effective_limit cfg rateLimit) \<and>
           refillRate b = capacity b / 60"
  using assms
  by (simp add: Allow_same_path_enabled TakeToken_frame getBucket_def Let_def)

text \<open>
  C10, as stated, fails: while rate limiting is disabled the first \<open>Allow\<close> call for a
  path returns true before it looks for a bucket, and creates none.
\<close>

theorem no_bucket_when_disabled_counterexample:
  "Allow (default_config\<lparr>EnableRateLimit := False\<rparr>) Map.empty ''/api/orders'' 50 0 0
     = (True, Map.empty)
   \<and> snd (Allow (default_config\<lparr>EnableRateLimit := False\<rparr>) Map.empty ''/api/orders'' 50 0 0)
        ''/api/orders'' = None"
  by (simp add: Allow_def)

text \<open>
  C10, amended. With rate limiting enabled, an \<open>Allow\<close> call for a path that has no bucket
  creates the bucket with capacity equal to the call's limit (the default when the
  configured limit is not positive) and refill rate capacity/60. Once a path has a
  bucket, an \<open>Allow\<close> call for it under any configuration and any configured limit
  changes nothing of the bucket but its tokens and last refill time, buckets of other
  paths are untouched, and so after any further sequence of calls the bucket's capacity
  and refill rate are still those it was created with. A call made while rate limiting
  is disabled creates and changes no bucket.
\<close>

theorem bucket_capacity_frozen:
  "(EnableRateLimit cfg \<and> buckets path = None \<longrightarrow>
      (\<exists>b. snd (Allow cfg buckets path rateLimit tc now) path = Some b \<and>
           capacity b = real_of_int (effective_limit cfg rateLimit) \<and>
           refillRate b = capacity b / 60))
   \<and> (buckets path = Some b0 \<longrightarrow>
      (\<exists>b'. snd (Allow cfg buckets path rateLimit tc now) path = Some b' \<and>
            b' = b0\<lparr>tokens := tokens b', lastRefillTime := lastRefillTime b'\<rparr>) \<and>
      (\<exists>b'. allow_calls buckets calls path = Some b' \<and> capacity b' = capacity b0 \<and>
            refillRate b' = refillRate b0))
   \<and> (q \<noteq> path \<longrightarrow> snd (Allow cfg buckets path rateLimit tc now) q = buckets q)
   \<and> (\<not> EnableRateLimit cfg \<longrightarrow> snd (Allow cfg buckets path rateLimit tc now) = buckets)"
  using Allow_creates[of cfg buckets path rateLimit tc now]
    Allow_capacity_frame[of buckets path b0 cfg rateLimit tc now]
    allow_calls_frame[of buckets path b0 calls]
    Allow_other_path[of q path cfg buckets rateLimit tc now]
    Allow_disabled[of cfg buckets path rateLimit tc now]
  by simp

theorem bucket_capacity_frozen_witness:
  "EnableRateLimit default_config
   \<and> (Map.empty :: string \<rightharpoonup> TokenBucket) ''/api/orders'' = None
   \<and> snd (Allow default_config Map.empty ''/api/orders'' 6 0 0) ''/api/orders''
       = Some \<lparr>tokens = 5, capacity = 6, refillRate = 1 / 10, lastRefillTime = 0\<rparr>
   \<and> snd (Allow default_config
        [''/api/orders'' \<mapsto> \<lparr>tokens = 5, capacity = 6, refillRate = 1 / 10, lastRefillTime = 0\<rparr>]
        ''/api/orders'' 50 0 0) ''/api/orders''
       = Some \<lparr>tokens = 4, capacity = 6, refillRate = 1 / 10, lastRefillTime = 0\<rparr>
   \<and> ''/public'' \<noteq> ''/api/orders''
   \<and> snd (Allow default_config
        [''/api/orders'' \<mapsto> \<lparr>tokens = 5, capacity = 6, refillRate = 1 / 10, lastRefillTime = 0\<rparr>]
        ''/api/orders'' 50 0 0) ''/public'' = None
   \<and> \<not> EnableRateLimit (default_config\<lparr>EnableRateLimit := False\<rparr>)
   \<and> snd (Allow (default_config\<lparr>EnableRateLimit := False\<rparr>)
        [''/api/orders'' \<mapsto> \<lparr>tokens = 5, capacity = 6, refillRate = 1 / 10, lastRefillTime = 0\<rparr>]
        ''/api/orders'' 50 0 0)
       = [''/api/orders'' \<mapsto> \<lparr>tokens = 5, capacity = 6, refillRate = 1 / 10, lastRefillTime = 0\<rparr>]"
  using bucket_capacity_frozen [of "default_config\<lparr>EnableRateLimit := False\<rparr>"
      "[''/api/orders'' \<mapsto> \<lparr>tokens = 5, capacity = 6, refillRate = 1 / 10, lastRefillTime = 0\<rparr>]"
      "''/api/orders''" 50 0 0
      "\<lparr>tokens = 5, capacity = 6, refillRate = 1 / 10, lastRefillTime = 0\<rparr>" "[]" "''/public''"]
    bucket_capacity_frozen [of default_config Map.empty "''/api/orders''" 6 0 0 undefined
      "[]" "''/public''"]
    bucket_capacity_frozen [of default_config
      "[''/api/orders'' \<mapsto> \<lparr>tokens = 5, capacity = 6, refillRate = 1 / 10, lastRefillTime = 0\<rparr>]"
      "''/api/orders''" 50 0 0
      "\<lparr>tokens = 5, capacity = 6, refillRate = 1 / 10, lastRefillTime = 0\<rparr>" "[]" "''/public''"]
  by (simp add: default_config_def Allow_def getBucket_def TakeToken_def Let_def)

section \<open>Statistics: proofs\<close>

lemma map_of_mapStore: "map_of (mapStore k v kvs) = (map_of kvs)(k \<mapsto> v)"
  by (induction kvs) (auto simp: fun_eq_iff)

lemma updateStats_other:
  "path' \<noteq> path \<Longrightarrow>
   map_of (RouteStats (stats (updateStats p path' latency isError now))) path
     = map_of (RouteStats (stats p)) path"
  by (simp add: updateStats_def Let_def map_of_mapStore split: prod.splits)

lemma updateStats_same:
  "map_of (RouteStats (stats (updateStats p path latency isError now))) path
     = Some ((routeStatOf p path)\<lparr>Requests := Requests (routeStatOf p path) + 1,
          AvgLatency := (AvgLatency (routeStatOf p path) * real_of_int (Requests (routeStatOf p path)) + latency)
                          / real_of_int (Requests (routeStatOf p path) + 1),
          Errors := (if isError then Errors (routeStatOf p path) + 1 else Errors (routeStatOf p path))\<rparr>)"
  by (simp add: updateStats_def Let_def map_of_mapStore routeStatOf_def split: prod.splits option.splits)

lemma routeStatOf_other:
  "path' \<noteq> path \<Longrightarrow> routeStatOf (updateStats p path' latency isError now) path = routeStatOf p path"
  by (simp add: routeStatOf_def updateStats_other)

lemma Requests_step:
  "Requests (routeStatOf (updateStats p path latency isError now) path) = Requests (routeStatOf p path) + 1"
  by (simp add: routeStatOf_def[of "updateStats p path latency isError now"] updateStats_same)

lemma latency_total_step:
  assumes "0 \<le> Requests (routeStatOf p path)"
  shows "latency_total (routeStatOf (updateStats p path latency isError now) path)
     = latency_total (routeStatOf p path) + latency"
proof -
  have "real_of_int (Requests (routeStatOf p path) + 1) \<noteq> 0"
    using assms by linarith
  then show ?thesis
    by (simp add: routeStatOf_def[of "updateStats p path latency isError now"] updateStats_same
          latency_total_def)
qed

lemma record_calls_Requests:
  "Requests (routeStatOf (record_calls p calls) path)
     = Requests (routeStatOf p path) + int (length (latencies_of path calls))"
proof (induction calls arbitrary: p)
  case Nil
  show ?case by (simp add: latencies_of_def)
next
  case (Cons c cs)
  show ?case
  proof (cases "rec_path c = path")
    case True
    then show ?thesis
      using Cons.IH[of "updateStats p path (rec_latency c) (rec_isError c) (rec_now c)"]
      by (simp add: Requests_step latencies_of_def)
  next
    case False
    then show ?thesis
      using Cons.IH[of "updateStats p (rec_path c) (rec_latency c) (rec_isError c) (rec_now c)"]
      by (simp add: routeStatOf_other latencies_of_def)
  qed
qed

lemma record_calls_latency_total:
  "0 \<le> Requests (routeStatOf p path) \<Longrightarrow>
   latency_total (routeStatOf (record_calls p calls) path)
     = latency_total (routeStatOf p path) + sum_list (latencies_of path calls)"
proof (induction calls arbitrary: p)
  case Nil
  show ?case by (simp add: latencies_of_def)
next
  case (Cons c cs)
  show ?case
  proof (cases "rec_path c = path")
    case True
    have "0 \<le> Requests (routeStatOf (updateStats p path (rec_latency c) (rec_isError c) (rec_now c)) path)"
      using Cons.prems by (simp add: Requests_step)
    from Cons.IH[OF this] True show ?thesis
      by (simp add: latency_total_step[OF Cons.prems] latencies_of_def)
  next
    case False
    then have "0 \<le> Requests (routeStatOf (updateStats p (rec_path c) (rec_latency c) (rec_isError c) (rec_now c)) path)"
      using Cons.prems by (simp add: routeStatOf_other)
    from Cons.IH[OF this] False show ?thesis
      by (simp add: routeStatOf_other latencies_of_def)
  qed
qed

lemma record_calls_keeps:
  "map_of (RouteStats (stats p)) path \<noteq> None \<Longrightarrow>
   map_of (RouteStats (stats (record_calls p calls))) path \<noteq> None"
proof (induction calls arbitrary: p)
  case Nil
  then show ?case by simp
next
  case (Cons c cs)
  have "map_of (RouteStats (stats (updateStats p (rec_path c) (rec_latency c) (rec_isError c) (rec_now c)))) path \<noteq> None"
    using Cons.prems updateStats_other[of "rec_path c" path p] updateStats_same[of p path]
    by (cases "rec_path c = path") auto
  then show ?case using Cons.IH by simp
qed

lemma record_calls_creates:
  "latencies_of path calls \<noteq> [] \<Longrightarrow>
   map_of (RouteStats (stats (record_calls p calls))) path \<noteq> None"
proof (induction calls arbitrary: p)
  case Nil
  then show ?case by (simp add: latencies_of_def)
next
  case (Cons c cs)
  show ?case
  proof (cases "rec_path c = path")
    case True
    have "map_of (RouteStats (stats (updateStats p path (rec_latency c) (rec_isError c) (rec_now c)))) path \<noteq> None"
      by (simp add: updateStats_same)
    then show ?thesis using True record_calls_keeps by simp
  next
    case False
    then have "latencies_of path cs \<noteq> []" using Cons.prems by (simp add: latencies_of_def)
    then show ?thesis using Cons.IH by simp
  qed
qed

text \<open>
  C9. Let a route have no statistics entry yet. After any sequence of \<open>updateStats\<close>
  calls in which at least one is for that route (calls for other routes may come in
  between), the route's request count is the number \<open>N\<close> of its calls and its
  \<open>AvgLatency\<close>, built by the incremental update, equals the arithmetic mean of the
  latencies \<open>L1..LN\<close> of those calls. (In exact arithmetic; the source computes in
  \<^verbatim>\<open>float64\<close>, where the two agree up to rounding.)
\<close>

theorem AvgLatency_is_arithmetic_mean:
  assumes "map_of (RouteStats (stats p)) path = None" and "latencies_of path calls \<noteq> []"
  shows "\<exists>rs. map_of (RouteStats (stats (record_calls p calls))) path = Some rs \<and>
     Requests rs = int (length (latencies_of path calls)) \<and>
     AvgLatency rs = arithmetic_mean (latencies_of path calls)"
proof -
  have z: "routeStatOf p path = \<lparr>Requests = 0, Errors = 0, AvgLatency = 0\<rparr>"
    using assms(1) by (simp add: routeStatOf_def)
  obtain rs where rs: "map_of (RouteStats (stats (record_calls p calls))) path = Some rs"
    using record_calls_creates[OF assms(2), of p] by blast
  then have e: "routeStatOf (record_calls p calls) path = rs" by (simp add: routeStatOf_def)
  have n: "Requests rs = int (length (latencies_of path calls))"
    using record_calls_Requests[of p calls path] e z by simp
  have "latency_total rs = sum_list (latencies_of path calls)"
    using record_calls_latency_total[of p path calls] e z by (simp add: latency_total_def)
  moreover have "real_of_int (Requests rs) \<noteq> 0" using n assms(2) by simp
  ultimately have "AvgLatency rs = sum_list (latencies_of path calls) / real_of_int (Requests rs)"
    by (simp add: latency_total_def field_simps)
  then have "AvgLatency rs = arithmetic_mean (latencies_of path calls)"
    using n by (simp add: arithmetic_mean_def)
  with rs n show ?thesis by blast
qed

theorem AvgLatency_is_arithmetic_mean_witness:
  "map_of (RouteStats (stats (NewProxy 0))) ''/api/users'' = None
   \<and> latencies_of ''/api/users'' users_calls = [1, 2, 6]
   \<and> (\<exists>rs. map_of (RouteStats (stats (record_calls (NewProxy 0) users_calls))) ''/api/users''
            = Some rs \<and> Requests rs = 3 \<and> AvgLatency rs = 3)"
proof -
  have a: "map_of (RouteStats (stats (NewProxy 0))) ''/api/users'' = None"
    by (simp add: NewProxy_def)
  have b: "latencies_of ''/api/users'' users_calls = [1, 2, 6]"
    by (simp add: latencies_of_def users_calls_def)
  then have c: "latencies_of ''/api/users'' users_calls \<noteq> []"
    by simp
  from AvgLatency_is_arithmetic_mean[OF a c] a b show ?thesis
    by (simp add: arithmetic_mean_def)
qed

lemma updateStats_TotalRequests:
  "TotalRequests (stats (updateStats p path latency isError now)) = TotalRequests (stats p) + 1"
  by (simp add: updateStats_def Let_def split: prod.splits)

lemma updateStats_activeRequests:
  "activeRequests (updateStats p path latency isError now) = activeRequests p"
  by (simp add: updateStats_def Let_def split: prod.splits)

text \<open>
  C3 (the code departs from the claim). \<open>updateStats\<close> sets \<open>ErrorRate\<close> only when the
  request is an error, and then to the errors/requests of that request's route. After
  one failed and one successful request on a route the snapshot still reports an error
  rate of 1, while the errors of all routes over the requests of all routes are 1/2.
\<close>

theorem ErrorRate_stale_after_success:
  "ErrorRate (GetStats (record_calls (NewProxy 0) error_then_success) 2) = 1
   \<and> total_errors (GetStats (record_calls (NewProxy 0) error_then_success) 2) = 1
   \<and> total_requests (GetStats (record_calls (NewProxy 0) error_then_success) 2) = 2
   \<and> global_error_ratio (GetStats (record_calls (NewProxy 0) error_then_success) 2) = 1 / 2"
  by (simp add: error_then_success_def NewProxy_def updateStats_def GetStats_def Let_def
        global_error_ratio_def total_errors_def total_requests_def)

section \<open>Forwarding: proofs\<close>

lemma ProxyRequest_error_path:
  "TotalRequests (stats (snd (ProxyRequest p cfg route parses (\<lambda>t. TransportError err) clk)))
     = TotalRequests (stats p) + 2
   \<and> activeRequests (snd (ProxyRequest p cfg route parses (\<lambda>t. TransportError err) clk))
     = activeRequests p"
  by (simp add: ProxyRequest_def ServeHTTP_def ErrorHandler_def parses_def Let_def
        updateStats_TotalRequests updateStats_activeRequests)

lemma ProxyRequest_success_path:
  "TotalRequests (stats (snd (ProxyRequest p cfg route parses (\<lambda>t. Responded code) clk)))
     = TotalRequests (stats p) + 1
   \<and> activeRequests (snd (ProxyRequest p cfg route parses (\<lambda>t. Responded code) clk))
     = activeRequests p"
  by (simp add: ProxyRequest_def ServeHTTP_def parses_def Let_def
        updateStats_TotalRequests updateStats_activeRequests)

text \<open>
  C1 (the code departs from the claim). On every path the in-flight counter is back at
  its value before the call: it is incremented once and decremented once. A request
  the backend answers is recorded once. A request whose round trip fails (timeout,
  unavailable, connection failure) is recorded twice: once by the error handler with
  the error flag, and once more, without it, by the \<open>updateStats\<close> call that follows
  \<open>ServeHTTP\<close>. For one timed-out request on a fresh proxy the client gets 504, the
  total is 2 requests, and the route shows 2 requests and 1 error; for one refused
  connection the client gets 503 and the total is 2 requests.
\<close>

theorem ProxyRequest_records_failure_twice:
  "TotalRequests (stats (snd (ProxyRequest p cfg route parses (\<lambda>t. TransportError err) clk)))
     = TotalRequests (stats p) + 2
   \<and> activeRequests (snd (ProxyRequest p cfg route parses (\<lambda>t. TransportError err) clk))
     = activeRequests p
   \<and> TotalRequests (stats (snd (ProxyRequest p cfg route parses (\<lambda>t. Responded code) clk)))
     = TotalRequests (stats p) + 1
   \<and> activeRequests (snd (ProxyRequest p cfg route parses (\<lambda>t. Responded code) clk))
     = activeRequests p
   \<and> fst (ProxyRequest (NewProxy 0) default_config orders_route parses timing_out ticking)
     = \<lparr>returned_error = None, written_status = Some 504\<rparr>
   \<and> TotalRequests (stats (snd (ProxyRequest (NewProxy 0) default_config orders_route parses
        timing_out ticking))) = 2
   \<and> map_of (RouteStats (stats (snd (ProxyRequest (NewProxy 0) default_config orders_route parses
        timing_out ticking)))) ''/api/orders''
     = Some \<lparr>Requests = 2, Errors = 1, AvgLatency = 2\<rparr>
   \<and> fst (ProxyRequest (NewProxy 0) default_config orders_route parses refusing ticking)
     = \<lparr>returned_error = None, written_status = Some 503\<rparr>
   \<and> TotalRequests (stats (snd (ProxyRequest (NewProxy 0) default_config orders_route parses
        refusing ticking))) = 2"
proof -
  have c: "fst (ProxyRequest (NewProxy 0) default_config orders_route parses timing_out ticking)
     = \<lparr>returned_error = None, written_status = Some 504\<rparr>"
    by (simp add: ProxyRequest_def ServeHTTP_def ErrorHandler_def Let_def parses_def
          timing_out_def)
  have d: "TotalRequests (stats (snd (ProxyRequest (NewProxy 0) default_config orders_route parses
        timing_out ticking))) = 2"
    by (simp add: ProxyRequest_def ServeHTTP_def ErrorHandler_def Let_def parses_def
          timing_out_def updateStats_TotalRequests NewProxy_def)
  have e: "map_of (RouteStats (stats (snd (ProxyRequest (NewProxy 0) default_config orders_route
        parses timing_out ticking)))) ''/api/orders''
     = Some \<lparr>Requests = 2, Errors = 1, AvgLatency = 2\<rparr>"
    by (simp add: NewProxy_def ProxyRequest_def ServeHTTP_def ErrorHandler_def updateStats_def
          Let_def orders_route_def parses_def timing_out_def ticking_def)
  have f: "fst (ProxyRequest (NewProxy 0) default_config orders_route parses refusing ticking)
     = \<lparr>returned_error = None, written_status = Some 503\<rparr>"
    by (simp add: ProxyRequest_def ServeHTTP_def ErrorHandler_def Let_def parses_def
          refusing_def)
  have g: "TotalRequests (stats (snd (ProxyRequest (NewProxy 0) default_config orders_route parses
        refusing ticking))) = 2"
    by (simp add: ProxyRequest_def ServeHTTP_def ErrorHandler_def Let_def parses_def
          refusing_def updateStats_TotalRequests NewProxy_def)
  from ProxyRequest_error_path[of p cfg route err clk]
    ProxyRequest_success_path[of p cfg route code clk] c d e f g
  show ?thesis by blast
qed

section \<open>Credential store: proofs\<close>

lemma Split_nonempty: "Split s sep \<noteq> []"
  by (induction s) (auto split: list.splits)

lemma Split_Cons_sep: "Split (sep # xs) sep = [] # Split xs sep"
  by simp

lemma Split_Cons_other:
  "x \<noteq> sep \<Longrightarrow> Split (x # xs) sep = (x # hd (Split xs sep)) # tl (Split xs sep)"
  using Split_nonempty[of xs sep] by (cases "Split xs sep") simp_all

lemma Split_one: "(Split s sep = [a]) = (s = a \<and> sep \<notin> set a)"
proof (induction s arbitrary: a)
  case Nil
  show ?case by auto
next
  case (Cons x xs)
  show ?case
  proof (cases "x = sep")
    case True
    then show ?thesis using Split_nonempty[of xs sep] by auto
  next
    case False
    have "(Split (x # xs) sep = [a]) = (\<exists>a'. a = x # a' \<and> Split xs sep = [a'])"
    proof
      assume h: "Split (x # xs) sep = [a]"
      then have "a = x # hd (Split xs sep)" "tl (Split xs sep) = []"
        using False by (simp_all del: Split.simps add: Split_Cons_other)
      moreover from this have "Split xs sep = [hd (Split xs sep)]"
        using Split_nonempty[of xs sep] by (cases "Split xs sep") simp_all
      ultimately show "\<exists>a'. a = x # a' \<and> Split xs sep = [a']" by blast
    next
      assume "\<exists>a'. a = x # a' \<and> Split xs sep = [a']"
      then show "Split (x # xs) sep = [a]"
        using False by (auto simp del: Split.simps simp add: Split_Cons_other)
    qed
    also have "\<dots> = (\<exists>a'. a = x # a' \<and> xs = a' \<and> sep \<notin> set a')"
      by (simp only: Cons.IH)
    also have "\<dots> = (x # xs = a \<and> sep \<notin> set a)"
      using False by (cases a) auto
    finally show ?thesis .
  qed
qed

lemma Split_two:
  "(Split s sep = [a, b]) = (s = a @ sep # b \<and> sep \<notin> set a \<and> sep \<notin> set b)"
proof (induction s arbitrary: a)
  case Nil
  show ?case by auto
next
  case (Cons x xs)
  show ?case
  proof (cases "x = sep")
    case True
    have "(Split (x # xs) sep = [a, b]) = (a = [] \<and> Split xs sep = [b])"
      using True by auto
    also have "\<dots> = (a = [] \<and> xs = b \<and> sep \<notin> set b)"
      by (simp only: Split_one)
    also have "\<dots> = (x # xs = a @ sep # b \<and> sep \<notin> set a \<and> sep \<notin> set b)"
      using True by (cases a) auto
    finally show ?thesis .
  next
    case False
    have "(Split (x # xs) sep = [a, b]) = (\<exists>a'. a = x # a' \<and> Split xs sep = [a', b])"
    proof
      assume h: "Split (x # xs) sep = [a, b]"
      then have "a = x # hd (Split xs sep)" "tl (Split xs sep) = [b]"
        using False by (simp_all del: Split.simps add: Split_Cons_other)
      moreover from this have "Split xs sep = [hd (Split xs sep), b]"
        using Split_nonempty[of xs sep] by (cases "Split xs sep") simp_all
      ultimately show "\<exists>a'. a = x # a' \<and> Split xs sep = [a', b]" by blast
    next
      assume "\<exists>a'. a = x # a' \<and> Split xs sep = [a', b]"
      then show "Split (x # xs) sep = [a, b]"
        using False by (auto simp del: Split.simps simp add: Split_Cons_other)
    qed
    also have "\<dots> = (\<exists>a'. a = x # a' \<and> xs = a' @ sep # b \<and> sep \<notin> set a' \<and> sep \<notin> set b)"
      by (simp only: Cons.IH)
    also have "\<dots> = (x # xs = a @ sep # b \<and> sep \<notin> set a \<and> sep \<notin> set b)"
      using False by (cases a) auto
    finally show ?thesis .
  qed
qed

lemma takeWhile_upto_sep:
  "sep \<notin> set k \<Longrightarrow> takeWhile (\<lambda>c. c \<noteq> sep) (k @ sep # v) = k"
  by (induction k) auto

lemma dropWhile_upto_sep:
  "sep \<notin> set k \<Longrightarrow> dropWhile (\<lambda>c. c \<noteq> sep) (k @ sep # v) = sep # v"
  by (induction k) auto

lemma SplitN2_two:
  "(SplitN2 s sep = [k, v]) = (s = k @ sep # v \<and> sep \<notin> set k)"
proof
  assume h: "SplitN2 s sep = [k, v]"
  then have m: "sep \<in> set s" by (auto simp: SplitN2_def split: if_splits)
  then have k: "k = takeWhile (\<lambda>c. c \<noteq> sep) s" and v: "v = tl (dropWhile (\<lambda>c. c \<noteq> sep) s)"
    using h by (auto simp: SplitN2_def)
  have "dropWhile (\<lambda>c. c \<noteq> sep) s \<noteq> []" using m by (simp add: dropWhile_eq_Nil_conv) 
  moreover have "hd (dropWhile (\<lambda>c. c \<noteq> sep) s) = sep"
    using m hd_dropWhile[of "\<lambda>c. c \<noteq> sep" s] calculation by auto
  ultimately have "dropWhile (\<lambda>c. c \<noteq> sep) s = sep # v"
    using v by (cases "dropWhile (\<lambda>c. c \<noteq> sep) s") auto
  then have "s = k @ sep # v" using k takeWhile_dropWhile_id[of "\<lambda>c. c \<noteq> sep" s] by simp
  moreover have "sep \<notin> set k" using k by (auto dest: set_takeWhileD)
  ultimately show "s = k @ sep # v \<and> sep \<notin> set k" by simp
next
  assume h: "s = k @ sep # v \<and> sep \<notin> set k"
  then show "SplitN2 s sep = [k, v]"
    by (simp add: SplitN2_def takeWhile_upto_sep dropWhile_upto_sep)
qed

lemma SplitN2_length: "length (SplitN2 s sep) = 2 \<or> length (SplitN2 s sep) = 1"
  by (simp add: SplitN2_def)

lemma validForRoute_iff: "validForRoute keys apiKey = (apiKey \<in> set keys)"
  by (induction keys) auto

lemma parseBasic_presents:
  "(parseBasic lib header = Some (key, secret)) = presents lib header key secret"
proof
  assume h: "parseBasic lib header = Some (key, secret)"
  then obtain scheme payload where sp: "Split header (CHR '' '') = [scheme, payload]"
    by (auto simp: parseBasic_def split: list.splits)
  with h have low: "strings_ToLower lib scheme = ''basic''"
    by (auto simp: parseBasic_def split: if_splits)
  with h sp obtain decoded where dec: "base64_DecodeString lib payload = Some decoded"
    by (auto simp: parseBasic_def split: option.splits)
  with h sp low have "SplitN2 decoded (CHR '':'') = [key, secret]"
    by (auto simp: parseBasic_def split: list.splits)
  then have "decoded = key @ '':'' @ secret \<and> CHR '':'' \<notin> set key"
    by (simp add: SplitN2_two)
  moreover have "header = scheme @ '' '' @ payload \<and> CHR '' '' \<notin> set scheme \<and> CHR '' '' \<notin> set payload"
    using sp by (simp add: Split_two)
  ultimately show "presents lib header key secret"
    using low dec unfolding presents_def by blast
next
  assume "presents lib header key secret"
  then obtain scheme payload where
    hd: "header = scheme @ '' '' @ payload" "CHR '' '' \<notin> set scheme" "CHR '' '' \<notin> set payload"
    and low: "strings_ToLower lib scheme = ''basic''"
    and dec: "base64_DecodeString lib payload = Some (key @ '':'' @ secret)"
    and k: "CHR '':'' \<notin> set key"
    unfolding presents_def by blast
  have sp: "Split header (CHR '' '') = [scheme, payload]"
    using hd by (simp add: Split_two)
  have sn: "SplitN2 (key @ CHR '':'' # secret) (CHR '':'') = [key, secret]"
    using k by (simp add: SplitN2_two)
  show "parseBasic lib header = Some (key, secret)"
    using dec by (simp add: parseBasic_def sp low sn)
qed

lemma Authenticate_parseBasic:
  "Authenticate lib a header routeID now =
     (case parseBasic lib header of
        None \<Rightarrow> (False, a)
      | Some (key, secret) \<Rightarrow>
          (case credentials a key of
             None \<Rightarrow> (False, a)
           | Some cred \<Rightarrow>
               if Enabled cred \<and> key \<in> set (routeKeys a routeID) \<and> hashSecret lib secret = APISecret cred
               then (True, a\<lparr>credentials := (credentials a)(key \<mapsto> cred\<lparr>LastUsed := now\<rparr>)\<rparr>)
               else (False, a)))"
proof -
  consider (bad_split) "\<not> (\<exists>scheme payload. Split header (CHR '' '') = [scheme, payload])"
    | (split) scheme payload where "Split header (CHR '' '') = [scheme, payload]"
    by blast
  then show ?thesis
  proof cases
    case bad_split
    then have "parseBasic lib header = None"
      by (auto simp: parseBasic_def split: list.splits)
    moreover have "Authenticate lib a header routeID now = (False, a)"
      using bad_split by (auto simp: Authenticate_def split: list.splits)
    ultimately show ?thesis by simp
  next
    case split
    then have ne: "header \<noteq> []" by auto
    show ?thesis
    proof (cases "strings_ToLower lib scheme = ''basic''")
      case False
      then have "Authenticate lib a header routeID now = (False, a)"
        using ne by (auto simp: Authenticate_def split)
      moreover have "parseBasic lib header = None"
        using False by (auto simp: parseBasic_def split)
      ultimately show ?thesis by simp
    next
      case True
      show ?thesis
      proof (cases "base64_DecodeString lib payload")
        case None
        then show ?thesis using True ne by (simp add: Authenticate_def parseBasic_def split)
      next
        case (Some decoded)
        consider (bad) "\<not> (\<exists>k v. SplitN2 decoded (CHR '':'') = [k, v])"
          | (good) k v where "SplitN2 decoded (CHR '':'') = [k, v]"
          by blast
        then show ?thesis
        proof cases
          case bad
          then have "parseBasic lib header = None"
            using True Some by (auto simp: parseBasic_def split split: list.splits)
          moreover have "Authenticate lib a header routeID now = (False, a)"
            using bad True Some ne by (auto simp: Authenticate_def split split: list.splits)
          ultimately show ?thesis by simp
        next
          case good
          then show ?thesis
            using True Some ne
            by (simp add: Authenticate_def parseBasic_def split validForRoute_iff
                  split: option.splits)
        qed
      qed
    qed
  qed
qed

lemma presents_unique:
  assumes "presents lib header key secret" "presents lib header key' secret'"
  shows "key' = key \<and> secret' = secret"
  using assms by (metis parseBasic_presents option.inject prod.inject)

lemma hash_eval: "hashSecret example_library ''s3cret'' = ''1ec1c26b50d5d3c58d9583181af8076655fe00756bf7285940ba3670f99fcba0''"
  by (simp add: hashSecret_def example_library_def hex_byte_def hexdigit_def)

lemma parse_eval: "parseBasic example_library ''Basic YWxpY2U6czNjcmV0'' = Some (''alice'', ''s3cret'')"
  by (simp add: parseBasic_def example_library_def SplitN2_def)

lemma auth_eval: "fst (Authenticate example_library alice_store ''Basic YWxpY2U6czNjcmV0'' 1 5)"
  by (simp add: Authenticate_parseBasic parse_eval alice_store_def alice_def routeKeys_def hash_eval)

text \<open>
  C7. \<open>Authenticate\<close> returns true exactly when the header presents a key and a secret
  (it is \<open>Basic <base64>\<close> and the payload decodes to \<open>key:secret\<close>), the key is in the
  store, its credential is enabled, the key is listed for the requested route, and the
  hash of the presented secret equals the stored hash. Its only result besides the store
  is the flag, so no failure is told from another. On success the store afterwards is
  the old one with that credential's \<open>LastUsed\<close> set to the current time; on every
  failure the store is unchanged. A disabled credential fails whatever the secret, and
  so does a key that is not listed for the requested route.
\<close>

theorem Authenticate_iff_spec:
  "fst (Authenticate lib a header routeId now) = authenticate_spec lib a header routeId
   \<and> (presents lib header key secret \<and> credentials a key = Some cred \<and>
        fst (Authenticate lib a header routeId now) \<longrightarrow>
        snd (Authenticate lib a header routeId now)
          = a\<lparr>credentials := (credentials a)(key \<mapsto> cred\<lparr>LastUsed := now\<rparr>)\<rparr>)
   \<and> (\<not> fst (Authenticate lib a header routeId now) \<longrightarrow>
        snd (Authenticate lib a header routeId now) = a)
   \<and> (presents lib header key secret \<and> credentials a key = Some cred \<and> \<not> Enabled cred \<longrightarrow>
        \<not> fst (Authenticate lib a header routeId now))
   \<and> (presents lib header key secret \<and> key \<notin> set (routeKeys a routeId) \<longrightarrow>
        \<not> fst (Authenticate lib a header routeId now))"
proof -
  have iff: "fst (Authenticate lib a header routeId now) = authenticate_spec lib a header routeId"
  proof (cases "parseBasic lib header")
    case None
    then have "\<not> authenticate_spec lib a header routeId"
      by (auto simp: authenticate_spec_def parseBasic_presents[symmetric])
    then show ?thesis using None by (simp add: Authenticate_parseBasic)
  next
    case (Some ks)
    obtain k s where ks: "ks = (k, s)" by (cases ks)
    have p: "presents lib header k s" using Some ks by (simp add: parseBasic_presents[symmetric])
    have "authenticate_spec lib a header routeId =
        (\<exists>cred. credentials a k = Some cred \<and> Enabled cred \<and> k \<in> set (routeKeys a routeId) \<and>
           hashSecret lib s = APISecret cred)"
      unfolding authenticate_spec_def using p presents_unique[OF p] by blast
    then show ?thesis
      using Some ks by (auto simp: Authenticate_parseBasic split: option.splits)
  qed
  have upd: "presents lib header key secret \<and> credentials a key = Some cred \<and>
        fst (Authenticate lib a header routeId now) \<longrightarrow>
        snd (Authenticate lib a header routeId now)
          = a\<lparr>credentials := (credentials a)(key \<mapsto> cred\<lparr>LastUsed := now\<rparr>)\<rparr>"
    by (auto simp: Authenticate_parseBasic parseBasic_presents[symmetric] split: if_splits)
  have keep: "\<not> fst (Authenticate lib a header routeId now) \<longrightarrow>
        snd (Authenticate lib a header routeId now) = a"
    by (auto simp: Authenticate_parseBasic split: option.splits if_splits)
  have dis: "presents lib header key secret \<and> credentials a key = Some cred \<and> \<not> Enabled cred \<longrightarrow>
        \<not> fst (Authenticate lib a header routeId now)"
    by (auto simp: Authenticate_parseBasic parseBasic_presents[symmetric])
  have other: "presents lib header key secret \<and> key \<notin> set (routeKeys a routeId) \<longrightarrow>
        \<not> fst (Authenticate lib a header routeId now)"
    by (auto simp: Authenticate_parseBasic parseBasic_presents[symmetric] split: option.splits)
  from iff upd keep dis other show ?thesis by blast
qed

theorem Authenticate_iff_spec_witness:
  "presents example_library ''Basic YWxpY2U6czNjcmV0'' ''alice'' ''s3cret''
   \<and> credentials alice_store ''alice'' = Some alice
   \<and> fst (Authenticate example_library alice_store ''Basic YWxpY2U6czNjcmV0'' 1 5)
   \<and> authenticate_spec example_library alice_store ''Basic YWxpY2U6czNjcmV0'' 1
   \<and> snd (Authenticate example_library alice_store ''Basic YWxpY2U6czNjcmV0'' 1 5)
       = alice_store\<lparr>credentials := (credentials alice_store)(''alice'' \<mapsto> alice\<lparr>LastUsed := 5\<rparr>)\<rparr>
   \<and> \<not> Enabled (alice\<lparr>Enabled := False\<rparr>)
   \<and> \<not> fst (Authenticate example_library
              (alice_store\<lparr>credentials := [''alice'' \<mapsto> alice\<lparr>Enabled := False\<rparr>]\<rparr>)
              ''Basic YWxpY2U6czNjcmV0'' 1 5)
   \<and> snd (Authenticate example_library
              (alice_store\<lparr>credentials := [''alice'' \<mapsto> alice\<lparr>Enabled := False\<rparr>]\<rparr>)
              ''Basic YWxpY2U6czNjcmV0'' 1 5)
       = alice_store\<lparr>credentials := [''alice'' \<mapsto> alice\<lparr>Enabled := False\<rparr>]\<rparr>
   \<and> ''alice'' \<notin> set (routeKeys alice_store 2)
   \<and> \<not> fst (Authenticate example_library alice_store ''Basic YWxpY2U6czNjcmV0'' 2 5)"
proof -
  let ?h = "''Basic YWxpY2U6czNjcmV0''"
  let ?off = "alice_store\<lparr>credentials := [''alice'' \<mapsto> alice\<lparr>Enabled := False\<rparr>]\<rparr>"
  have p: "presents example_library ?h ''alice'' ''s3cret''"
    using parse_eval by (simp only: parseBasic_presents)
  have c: "credentials alice_store ''alice'' = Some alice"
    by (simp add: alice_store_def)
  have c': "credentials ?off ''alice'' = Some (alice\<lparr>Enabled := False\<rparr>)"
    by simp
  have d: "\<not> Enabled (alice\<lparr>Enabled := False\<rparr>)"
    by simp
  have o: "''alice'' \<notin> set (routeKeys alice_store 2)"
    by (simp add: routeKeys_def alice_store_def)
  note on = Authenticate_iff_spec[of example_library alice_store ?h 1 5 "''alice''" "''s3cret''" alice]
  note off = Authenticate_iff_spec[of example_library ?off ?h 1 5 "''alice''" "''s3cret''"
      "alice\<lparr>Enabled := False\<rparr>"]
  note other = Authenticate_iff_spec[of example_library alice_store ?h 2 5 "''alice''" "''s3cret''"
      alice]
  from on auth_eval have s: "authenticate_spec example_library alice_store ?h 1"
    by blast
  from on p c auth_eval have u: "snd (Authenticate example_library alice_store ?h 1 5)
       = alice_store\<lparr>credentials := (credentials alice_store)(''alice'' \<mapsto> alice\<lparr>LastUsed := 5\<rparr>)\<rparr>"
    by blast
  from off p c' d have f1: "\<not> fst (Authenticate example_library ?off ?h 1 5)"
    by blast
  with off have k: "snd (Authenticate example_library ?off ?h 1 5) = ?off"
    by blast
  from other p o have f2: "\<not> fst (Authenticate example_library alice_store ?h 2 5)"
    by blast
  from p c auth_eval s u d f1 k o f2 show ?thesis by blast
qed

section \<open>Catch-all proxy endpoint: proofs\<close>

text \<open>
  C2 (the code departs from the claim). On the route \<open>/api/orders\<close>, which requires
  authentication, a request without an Authorization header is answered 401 and not
  forwarded. A request with the header \<open>Basic bogus\<close> is forwarded to the backend,
  although \<open>Authenticate\<close> returns false for that header on an empty credential store
  (whatever the library functions are): the handler tests only that the header is not
  empty and never calls \<open>Authenticate\<close>.
\<close>

theorem handleProxyRequest_forwards_unauthenticated:
  "fst (handleProxyRequest orders_config Map.empty (NewProxy 0) ''/api/orders'' ''GET''
       ''Basic bogus'' parses responding 1 1 ticking)
     = Forwarded \<lparr>returned_error = None, written_status = Some 200\<rparr> None
   \<and> \<not> fst (Authenticate lib NewAuth ''Basic bogus'' 1 1)
   \<and> fst (handleProxyRequest orders_config Map.empty (NewProxy 0) ''/api/orders'' ''GET'' ''''
       parses responding 1 1 ticking) = AuthenticationRequired"
proof -
  have r: "FindRouteByPath (Routes orders_config) ''/api/orders'' ''GET'' = Some orders_route"
    by (simp add: orders_config_def orders_route_def pathMatches_def)
  have en: "EnableRateLimit orders_config"
    by (simp add: orders_config_def)
  have ar: "AuthRequired orders_route"
    by (simp add: orders_route_def)
  have al: "fst (Allow orders_config Map.empty (Path orders_route) (RateLimit orders_route) 1 1)"
    by (simp add: Allow_def getBucket_def TakeToken_def Let_def orders_config_def orders_route_def)
  have pr: "fst (ProxyRequest (NewProxy 0) orders_config orders_route parses responding ticking)
      = \<lparr>returned_error = None, written_status = Some 200\<rparr>"
    by (simp add: ProxyRequest_def ServeHTTP_def Let_def parses_def responding_def)
  have a: "fst (handleProxyRequest orders_config Map.empty (NewProxy 0) ''/api/orders'' ''GET'' ''Basic bogus''
       parses responding 1 1 ticking)
     = Forwarded \<lparr>returned_error = None, written_status = Some 200\<rparr> None"
    using al pr en by (simp add: handleProxyRequest_def r Let_def case_prod_beta)
  have b: "\<not> fst (Authenticate lib NewAuth ''Basic bogus'' 1 1)"
    by (simp add: Authenticate_parseBasic NewAuth_def split: option.splits)
  have c: "fst (handleProxyRequest orders_config Map.empty (NewProxy 0) ''/api/orders'' ''GET'' ''''
       parses responding 1 1 ticking) = AuthenticationRequired"
    using al en ar by (simp add: handleProxyRequest_def r Let_def case_prod_beta)
  from a b c show ?thesis by blast
qed

section \<open>Traffic analytics: proofs\<close>












end
